theory Spec2Isabelle
  imports Main
begin

section \<open>Host-language strings and numbers\<close>

text \<open>
  The source is TypeScript. A string is a sequence of code units, modelled as a
  \<^typ>\<open>string\<close>; its \<open>length\<close> is \<^term>\<open>int (length s)\<close>. Indices are numbers that the
  claims restrict to integers, modelled as \<^typ>\<open>int\<close>. The three string primitives the
  rope uses are written out with the clamping and swapping the language defines for them.
\<close>

definition js_substring :: "string \<Rightarrow> int \<Rightarrow> int \<Rightarrow> string" where
  "js_substring s a b =
     (let n = int (length s);
          a' = max 0 (min a n);
          b' = max 0 (min b n);
          lo = min a' b';
          hi = max a' b'
      in take (nat (hi - lo)) (drop (nat lo) s))"

definition js_substring_from :: "string \<Rightarrow> int \<Rightarrow> string" where
  "js_substring_from s a = js_substring s a (int (length s))"

definition js_slice :: "string \<Rightarrow> int \<Rightarrow> int \<Rightarrow> string" where
  "js_slice s a b =
     (let n = int (length s);
          a' = (if a < 0 then max (n + a) 0 else min a n);
          b' = (if b < 0 then max (n + b) 0 else min b n)
      in take (nat (b' - a')) (drop (nat a') s))"

text \<open>\<open>s[i]\<close>: a one-unit string, or \<open>undefined\<close> (here \<open>None\<close>) outside the string.\<close>

definition js_index :: "string \<Rightarrow> int \<Rightarrow> string option" where
  "js_index s i = (if 0 \<le> i \<and> i < int (length s) then Some [s ! nat i] else None)"

section \<open>Rope nodes\<close>

datatype RopeNodeType = LEAF | INTERNAL

text \<open>
  The errors a call can end in: the three \<open>Error\<close> messages the source throws, and the
  runtime's \<open>TypeError\<close> on reading a field of \<open>null\<close> behind a non-null assertion.
\<close>

datatype error = IndexOutOfBounds | InvalidRange | InvalidStructure | TypeError

text \<open>
  A node carries every field of the class but \<open>parent\<close>: the source only ever writes that
  back-reference (in \<open>concat\<close> and the rotations) and never reads it to decide anything.
  Children are nullable, as in the class. The source edits nodes in place; every node it
  edits belongs to exactly one tree at that moment (\<open>split\<close> drops each node on the path
  it cuts and hands every other subtree on whole, and each method ends by replacing
  \<open>root\<close>), so no edit is seen through a second reference and the functions below return
  the edited tree as a value.
\<close>

datatype RopeNode =
  Node (left: "RopeNode option") (right: "RopeNode option") (weight: int)
       (val: string) (type: RopeNodeType) (height: int)

text \<open>\<open>new RopeNode(value)\<close>\<close>

definition new_RopeNode :: "string \<Rightarrow> RopeNode" where
  "new_RopeNode v = Node None None (int (length v)) v LEAF 1"

fun set_left :: "RopeNode option \<Rightarrow> RopeNode \<Rightarrow> RopeNode" where
  "set_left l' (Node l r w v t h) = Node l' r w v t h"

fun set_right :: "RopeNode option \<Rightarrow> RopeNode \<Rightarrow> RopeNode" where
  "set_right r' (Node l r w v t h) = Node l r' w v t h"

definition LEAF_LENGTH_THRESHOLD :: int where
  "LEAF_LENGTH_THRESHOLD = 1024"

fun getNodeWeight :: "RopeNode option \<Rightarrow> int" where
  "getNodeWeight None = 0"
| "getNodeWeight (Some (Node l r w v t h)) =
     (if t = LEAF then int (length v) else getNodeWeight l + getNodeWeight r)"

text \<open>\<open>node ? node.height : 0\<close>\<close>

fun height_or_0 :: "RopeNode option \<Rightarrow> int" where
  "height_or_0 None = 0"
| "height_or_0 (Some n) = height n"

fun updateNodeMetadata :: "RopeNode \<Rightarrow> RopeNode" where
  "updateNodeMetadata (Node l r w v t h) =
     (if t = LEAF then Node l r (int (length v)) v t 1
      else
        (let leftHeight = height_or_0 l;
             rightHeight = height_or_0 r
         in Node l r (getNodeWeight l) v t (max leftHeight rightHeight + 1)))"

fun getBalanceFactor :: "RopeNode option \<Rightarrow> int" where
  "getBalanceFactor None = 0"
| "getBalanceFactor (Some n) = height_or_0 (left n) - height_or_0 (right n)"

fun rotateRight :: "RopeNode \<Rightarrow> error + RopeNode" where
  "rotateRight (Node yl yr yw yv yt yh) =
     (case yl of
        None \<Rightarrow> Inl TypeError
      | Some (Node xl xr xw xv xt xh) \<Rightarrow>
          (let T2 = xr;
               y' = updateNodeMetadata (Node T2 yr yw yv yt yh);
               x' = updateNodeMetadata (Node xl (Some y') xw xv xt xh)
           in Inr x'))"

fun rotateLeft :: "RopeNode \<Rightarrow> error + RopeNode" where
  "rotateLeft (Node xl xr xw xv xt xh) =
     (case xr of
        None \<Rightarrow> Inl TypeError
      | Some (Node yl yr yw yv yt yh) \<Rightarrow>
          (let T2 = yl;
               x' = updateNodeMetadata (Node xl T2 xw xv xt xh);
               y' = updateNodeMetadata (Node (Some x') yr yw yv yt yh)
           in Inr y'))"

definition balance :: "RopeNode \<Rightarrow> error + RopeNode" where
  "balance node0 =
     (let node = updateNodeMetadata node0;
          balanceFactor = getBalanceFactor (Some node)
      in
        if balanceFactor > 1 then
          (if getBalanceFactor (left node) \<ge> 0 then rotateRight node
           else
             (case left node of
                None \<Rightarrow> Inl TypeError
              | Some l \<Rightarrow>
                  (case rotateLeft l of
                     Inl e \<Rightarrow> Inl e
                   | Inr l' \<Rightarrow> rotateRight (set_left (Some l') node))))
        else if balanceFactor < - 1 then
          (if getBalanceFactor (right node) \<le> 0 then rotateLeft node
           else
             (case right node of
                None \<Rightarrow> Inl TypeError
              | Some r \<Rightarrow>
                  (case rotateRight r of
                     Inl e \<Rightarrow> Inl e
                   | Inr r' \<Rightarrow> rotateLeft (set_right (Some r') node))))
        else Inr node)"

text \<open>
  \<open>concat\<close>: the callers pass \<open>null\<close> operands through non-null assertions, and the first
  two lines answer them, so both operands are nullable here. The leaf fast path appends
  into the left leaf; otherwise a fresh internal node is balanced once.
\<close>

definition concat_rope :: "RopeNode option \<Rightarrow> RopeNode option \<Rightarrow> error + RopeNode option" where
  "concat_rope l r =
     (case l of
        None \<Rightarrow> Inr r
      | Some (Node ll lr lw lv lt lh) \<Rightarrow>
          (case r of
             None \<Rightarrow> Inr l
           | Some rn \<Rightarrow>
               if lt = LEAF \<and> type rn = LEAF
                  \<and> int (length lv) + int (length (val rn)) \<le> LEAF_LENGTH_THRESHOLD
               then Inr (Some (Node ll lr (int (length (lv @ val rn))) (lv @ val rn) lt lh))
               else
                 (case balance (updateNodeMetadata (Node l r 0 [] INTERNAL 1)) of
                    Inl e \<Rightarrow> Inl e
                  | Inr n \<Rightarrow> Inr (Some n))))"

fun split :: "RopeNode \<Rightarrow> int \<Rightarrow> error + (RopeNode option \<times> RopeNode option)" where
  "split (Node nl nr w v t h) index =
     (if t = LEAF then
        (if index = 0 then Inr (None, Some (Node nl nr w v t h))
         else if index = int (length v) then Inr (Some (Node nl nr w v t h), None)
         else Inr (Some (new_RopeNode (js_substring v 0 index)),
                   Some (new_RopeNode (js_substring_from v index))))
      else if index < w then
        (case nl of
           None \<Rightarrow> Inl TypeError
         | Some ln \<Rightarrow>
             (case split ln index of
                Inl e \<Rightarrow> Inl e
              | Inr (l, r) \<Rightarrow>
                  (case r of
                     None \<Rightarrow> Inr (l, nr)
                   | Some _ \<Rightarrow>
                       (case concat_rope r nr of
                          Inl e \<Rightarrow> Inl e
                        | Inr rightSubtree \<Rightarrow> Inr (l, rightSubtree)))))
      else
        (case nr of
           None \<Rightarrow> Inl TypeError
         | Some rn \<Rightarrow>
             (case split rn (index - w) of
                Inl e \<Rightarrow> Inl e
              | Inr (l, r) \<Rightarrow>
                  (case l of
                     None \<Rightarrow> Inr (nl, r)
                   | Some _ \<Rightarrow>
                       (case concat_rope nl l of
                          Inl e \<Rightarrow> Inl e
                        | Inr leftSubtree \<Rightarrow> Inr (leftSubtree, r))))))"

function createOptimalTree :: "string \<Rightarrow> int \<Rightarrow> int \<Rightarrow> RopeNode" where
  "createOptimalTree str start e =
     (if e - start \<le> LEAF_LENGTH_THRESHOLD then new_RopeNode (js_substring str start e)
      else
        updateNodeMetadata
          (Node (Some (createOptimalTree str start ((start + e) div 2)))
                (Some (createOptimalTree str ((start + e) div 2) e))
                0 [] INTERNAL 1))"
  by pat_completeness auto
termination
  by (relation "measure (\<lambda>(str, start, e). nat (e - start))")
     (auto simp: LEAF_LENGTH_THRESHOLD_def)

declare createOptimalTree.simps [simp del]

fun toString_node :: "RopeNode option \<Rightarrow> string" where
  "toString_node None = []"
| "toString_node (Some (Node l r w v t h)) =
     (if t = LEAF then v else toString_node l @ toString_node r)"

fun checkBalance :: "RopeNode option \<Rightarrow> int" where
  "checkBalance None = 0"
| "checkBalance (Some (Node l r w v t h)) =
     (let leftHeight = checkBalance l
      in if leftHeight = - 1 then - 1
         else
           (let rightHeight = checkBalance r
            in if rightHeight = - 1 then - 1
               else if \<bar>leftHeight - rightHeight\<bar> > 1 then - 1
               else max leftHeight rightHeight + 1))"

section \<open>The rope\<close>

record Rope =
  root :: "RopeNode option"

definition Rope_new :: "string \<Rightarrow> Rope" where
  "Rope_new initialString =
     (if initialString \<noteq> [] then
        \<lparr>root = Some (createOptimalTree initialString 0 (int (length initialString)))\<rparr>
      else \<lparr>root = None\<rparr>)"

definition length_rope :: "Rope \<Rightarrow> int" where
  "length_rope this = (case root this of None \<Rightarrow> 0 | Some n \<Rightarrow> getNodeWeight (Some n))"

definition toString :: "Rope \<Rightarrow> string" where
  "toString this = toString_node (root this)"

definition isBalanced :: "Rope \<Rightarrow> bool" where
  "isBalanced this = (checkBalance (root this) \<noteq> - 1)"

definition rebalance :: "Rope \<Rightarrow> Rope" where
  "rebalance this =
     (let str = toString this
      in this\<lparr>root := Some (createOptimalTree str 0 (int (length str)))\<rparr>)"

text \<open>
  The mutating methods return the outcome and the rope after the call. A method that
  throws in its opening check has assigned nothing. \<open>split\<close> and \<open>concat\<close> can only throw on
  a tree that breaks the node invariant below; the \<open>root\<close> field is still the old one then.
\<close>

definition insert_rope :: "Rope \<Rightarrow> int \<Rightarrow> string \<Rightarrow> (error + unit) \<times> Rope" where
  "insert_rope this index text =
     (if index < 0 \<or> index > length_rope this then (Inl IndexOutOfBounds, this)
      else
        (case root this of
           None \<Rightarrow> (Inr (), this\<lparr>root := Some (new_RopeNode text)\<rparr>)
         | Some rt \<Rightarrow>
             (let newNode = new_RopeNode text
              in case split rt index of
                   Inl e \<Rightarrow> (Inl e, this)
                 | Inr (l, r) \<Rightarrow>
                     (case l of
                        Some _ \<Rightarrow>
                          (case concat_rope l (Some newNode) of
                             Inl e \<Rightarrow> (Inl e, this)
                           | Inr temp \<Rightarrow>
                               (case concat_rope temp r of
                                  Inl e \<Rightarrow> (Inl e, this)
                                | Inr n \<Rightarrow> (Inr (), this\<lparr>root := n\<rparr>)))
                      | None \<Rightarrow>
                          (case concat_rope (Some newNode) r of
                             Inl e \<Rightarrow> (Inl e, this)
                           | Inr n \<Rightarrow> (Inr (), this\<lparr>root := n\<rparr>))))))"

definition delete :: "Rope \<Rightarrow> int \<Rightarrow> int \<Rightarrow> (error + unit) \<times> Rope" where
  "delete this start e =
     (if start = e then (Inr (), this)
      else if start < 0 \<or> e > length_rope this \<or> start \<ge> e then (Inl InvalidRange, this)
      else
        (case root this of
           None \<Rightarrow> (Inl TypeError, this)
         | Some rt \<Rightarrow>
             (case split rt start of
                Inl err \<Rightarrow> (Inl err, this)
              | Inr (l, temp) \<Rightarrow>
                  (case temp of
                     None \<Rightarrow> (Inl TypeError, this)
                   | Some tn \<Rightarrow>
                       (case split tn (e - start) of
                          Inl err \<Rightarrow> (Inl err, this)
                        | Inr (_, r) \<Rightarrow>
                            (case l of
                               Some _ \<Rightarrow>
                                 (case concat_rope l r of
                                    Inl err \<Rightarrow> (Inl err, this)
                                  | Inr n \<Rightarrow> (Inr (), this\<lparr>root := n\<rparr>))
                             | None \<Rightarrow> (Inr (), this\<lparr>root := r\<rparr>)))))))"

fun charAt_walk :: "RopeNode \<Rightarrow> int \<Rightarrow> error + string" where
  "charAt_walk (Node l r w v t h) currentIndex =
     (if t = INTERNAL then
        (if currentIndex < w then
           (case l of
              None \<Rightarrow> Inl InvalidStructure
            | Some ln \<Rightarrow> charAt_walk ln currentIndex)
         else
           (case r of
              None \<Rightarrow> Inl InvalidStructure
            | Some rn \<Rightarrow> charAt_walk rn (currentIndex - w)))
      else
        (case js_index v currentIndex of
           None \<Rightarrow> Inl IndexOutOfBounds
         | Some c \<Rightarrow> Inr c))"

definition charAt :: "Rope \<Rightarrow> int \<Rightarrow> error + string" where
  "charAt this index =
     (case root this of
        None \<Rightarrow> Inl IndexOutOfBounds
      | Some rt \<Rightarrow>
          if index < 0 \<or> index \<ge> length_rope this then Inl IndexOutOfBounds
          else charAt_walk rt index)"

definition substring :: "Rope \<Rightarrow> int \<Rightarrow> int \<Rightarrow> (error + string) \<times> Rope" where
  "substring this start e =
     (if start < 0 \<or> e > length_rope this \<or> start > e then (Inl InvalidRange, this)
      else if start = e then (Inr [], this)
      else if start = 0 \<and> e = length_rope this then (Inr (toString this), this)
      else
        (case root this of
           None \<Rightarrow> (Inl TypeError, this)
         | Some rt \<Rightarrow>
             (case split rt start of
                Inl err \<Rightarrow> (Inl err, this)
              | Inr (l, temp) \<Rightarrow>
                  (case temp of
                     None \<Rightarrow> (Inl TypeError, this)
                   | Some tn \<Rightarrow>
                       (case split tn (e - start) of
                          Inl err \<Rightarrow> (Inl err, this)
                        | Inr (middle, r) \<Rightarrow>
                            (let result = (case middle of Some _ \<Rightarrow> toString_node middle | None \<Rightarrow> [])
                             in case (case l of Some _ \<Rightarrow> concat_rope l middle | None \<Rightarrow> Inr middle) of
                                  Inl err \<Rightarrow> (Inl err, this)
                                | Inr firstPart \<Rightarrow>
                                    (case (case r of Some _ \<Rightarrow> concat_rope firstPart r
                                                   | None \<Rightarrow> Inr firstPart) of
                                       Inl err \<Rightarrow> (Inl err, this)
                                     | Inr n \<Rightarrow> (Inr result, this\<lparr>root := n\<rparr>))))))))"

section \<open>The node invariant\<close>

text \<open>
  What every node built by the tree builder, \<open>split\<close> and \<open>concat\<close> satisfies: a leaf has
  no children and height 1; an internal node has both children, its cached weight is the
  length of its left subtree's text, and its cached height is one more than the larger
  child height.
\<close>

fun node_inv :: "RopeNode \<Rightarrow> bool" where
  "node_inv (Node l r w v t h) =
     (if t = LEAF then l = None \<and> r = None \<and> h = 1
      else
        (case l of
           None \<Rightarrow> False
         | Some a \<Rightarrow>
             (case r of
                None \<Rightarrow> False
              | Some b \<Rightarrow>
                  node_inv a \<and> node_inv b \<and> w = getNodeWeight l
                  \<and> h = max (height a) (height b) + 1)))"

fun opt_inv :: "RopeNode option \<Rightarrow> bool" where
  "opt_inv None = True"
| "opt_inv (Some n) = node_inv n"

definition rope_inv :: "Rope \<Rightarrow> bool" where
  "rope_inv this = opt_inv (root this)"

section \<open>Ropes a client can hold\<close>

text \<open>
  The class keeps \<open>root\<close> private, so a rope is whatever the constructor made and the
  state-changing public methods (\<open>insert\<close>, \<open>delete\<close>, \<open>substring\<close>, \<open>rebalance\<close>) left behind,
  called with any arguments at all. The remaining public methods assign nothing.
\<close>

inductive reachable :: "Rope \<Rightarrow> bool" where
  reach_new: "reachable (Rope_new s)"
| reach_insert: "reachable this \<Longrightarrow> reachable (snd (insert_rope this index text))"
| reach_delete: "reachable this \<Longrightarrow> reachable (snd (delete this start e))"
| reach_substring: "reachable this \<Longrightarrow> reachable (snd (substring this start e))"
| reach_rebalance: "reachable this \<Longrightarrow> reachable (rebalance this)"

section \<open>Vocabulary of the specification\<close>

text \<open>The leaf values of a subtree, left to right, and the claim on cached weights.\<close>

fun leaf_values :: "RopeNode option \<Rightarrow> string list" where
  "leaf_values None = []"
| "leaf_values (Some (Node l r w v t h)) =
     (if t = LEAF then [v] else leaf_values l @ leaf_values r)"

fun weights_ok :: "RopeNode option \<Rightarrow> bool" where
  "weights_ok None = True"
| "weights_ok (Some (Node l r w v t h)) =
     (if t = LEAF then True
      else w = (\<Sum>x\<leftarrow>leaf_values l. int (length x)) \<and> weights_ok l \<and> weights_ok r)"

text \<open>
  The reference model of the round-trip property: a plain string edited by splicing. An
  edit with arguments outside the documented bounds has no reference result.
\<close>

datatype edit = Insert int string | Delete int int

fun splice :: "string \<Rightarrow> edit \<Rightarrow> string option" where
  "splice s (Insert index text) =
     (if 0 \<le> index \<and> index \<le> int (length s)
      then Some (take (nat index) s @ text @ drop (nat index) s) else None)"
| "splice s (Delete start e) =
     (if 0 \<le> start \<and> start \<le> e \<and> e \<le> int (length s)
      then Some (take (nat start) s @ drop (nat e) s) else None)"

fun splice_all :: "string \<Rightarrow> edit list \<Rightarrow> string option" where
  "splice_all s [] = Some s"
| "splice_all s (x # xs) =
     (case splice s x of None \<Rightarrow> None | Some s' \<Rightarrow> splice_all s' xs)"

text \<open>The same edits on the rope; the first call that throws ends the run.\<close>

fun apply_edit :: "Rope \<Rightarrow> edit \<Rightarrow> (error + unit) \<times> Rope" where
  "apply_edit this (Insert index text) = insert_rope this index text"
| "apply_edit this (Delete start e) = delete this start e"

fun apply_edits :: "Rope \<Rightarrow> edit list \<Rightarrow> error + Rope" where
  "apply_edits this [] = Inr this"
| "apply_edits this (x # xs) =
     (case apply_edit this x of
        (Inl err, _) \<Rightarrow> Inl err
      | (Inr _, this') \<Rightarrow> apply_edits this' xs)"

text \<open>
  The height of the tree the builder makes for a text of \<open>n\<close> units; it depends on \<open>n\<close>
  alone, since the builder cuts at the midpoint whatever the text is.
\<close>

function build_height :: "nat \<Rightarrow> int" where
  "build_height n =
     (if int n \<le> LEAF_LENGTH_THRESHOLD then 1
      else max (build_height (n div 2)) (build_height (n - n div 2)) + 1)"
  by pat_completeness auto
termination
  by (relation "measure id") (auto simp: LEAF_LENGTH_THRESHOLD_def)

declare build_height.simps [simp del]

section \<open>Node-level lemmas\<close>

lemma getNodeWeight_toString: "getNodeWeight n = int (length (toString_node n))"
  by (induction n rule: getNodeWeight.induct) auto

lemma node_inv_height_pos: "node_inv n \<Longrightarrow> 1 \<le> height n"
proof (induction n rule: node_inv.induct)
  case (1 l r w v t h)
  show ?case
  proof (cases "t = LEAF")
    case True
    with 1(3) show ?thesis by simp
  next
    case False
    with 1(3) obtain a b where ab: "l = Some a" "r = Some b" "node_inv a"
      "h = max (height a) (height b) + 1"
      by (auto split: option.splits)
    from 1(1)[OF False ab(1) ab(2) ab(3)] ab(4) show ?thesis by simp
  qed
qed

lemma concat_rope_Some:
  "concat_rope (Some ln) (Some rn) =
     (if type ln = LEAF \<and> type rn = LEAF
         \<and> int (length (val ln)) + int (length (val rn)) \<le> LEAF_LENGTH_THRESHOLD
      then Inr (Some (Node (left ln) (right ln) (int (length (val ln @ val rn)))
                       (val ln @ val rn) (type ln) (height ln)))
      else
        (case balance (Node (Some ln) (Some rn) (getNodeWeight (Some ln)) [] INTERNAL
                         (max (height ln) (height rn) + 1)) of
           Inl e \<Rightarrow> Inl e
         | Inr n \<Rightarrow> Inr (Some n)))"
  by (cases ln) (simp add: concat_rope_def)

lemma node_inv_tall:
  assumes "node_inv n" "2 \<le> height n"
  obtains a b w v h where "n = Node (Some a) (Some b) w v INTERNAL h"
    "node_inv a" "node_inv b" "w = getNodeWeight (Some a)" "h = max (height a) (height b) + 1"
proof (cases n)
  case (Node l r w v t h)
  with assms have "t = INTERNAL" by (cases t) auto
  with Node assms(1) that show thesis
    by (auto split: option.splits)
qed

lemma rotateRight_ok:
  assumes "node_inv a" "node_inv b" "node_inv c"
  shows "\<exists>n. rotateRight (Node (Some (Node (Some a) (Some b) xw xv INTERNAL xh)) (Some c) yw yv INTERNAL yh) = Inr n
     \<and> node_inv n
     \<and> toString_node (Some n) = toString_node (Some a) @ toString_node (Some b) @ toString_node (Some c)"
  using assms by (simp add: getNodeWeight_toString)

lemma rotateLeft_ok:
  assumes "node_inv a" "node_inv b" "node_inv c"
  shows "\<exists>n. rotateLeft (Node (Some a) (Some (Node (Some b) (Some c) yw yv INTERNAL yh)) xw xv INTERNAL xh) = Inr n
     \<and> node_inv n
     \<and> toString_node (Some n) = toString_node (Some a) @ toString_node (Some b) @ toString_node (Some c)"
  using assms by (simp add: getNodeWeight_toString)

lemma balance_ok:
  assumes l: "node_inv l" and r: "node_inv r"
  shows "\<exists>n. balance (Node (Some l) (Some r) w v INTERNAL h) = Inr n \<and> node_inv n
     \<and> toString_node (Some n) = toString_node (Some l) @ toString_node (Some r)"
proof -
  let ?node = "Node (Some l) (Some r) (getNodeWeight (Some l)) v INTERNAL (max (height l) (height r) + 1)"
  have upd: "updateNodeMetadata (Node (Some l) (Some r) w v INTERNAL h) = ?node" by simp
  have hl: "1 \<le> height l" and hr: "1 \<le> height r"
    using l r node_inv_height_pos by auto
  consider (lh) "height l - height r > 1" | (rh) "height l - height r < - 1"
    | (ok) "\<not> height l - height r > 1" "\<not> height l - height r < - 1" by linarith
  then show ?thesis
  proof cases
    case lh
    then have "2 \<le> height l" using hr by linarith
    with l obtain a b xw xv xh where L: "l = Node (Some a) (Some b) xw xv INTERNAL xh"
      "node_inv a" "node_inv b" "xh = max (height a) (height b) + 1"
      by (rule node_inv_tall)
    show ?thesis
    proof (cases "height a - height b \<ge> 0")
      case True
      then show ?thesis using lh L r
        by (simp add: balance_def getNodeWeight_toString)
    next
      case False
      then have "2 \<le> height b" using node_inv_height_pos[OF L(2)] by linarith
      with L(3) obtain b1 b2 bw bv bh where B: "b = Node (Some b1) (Some b2) bw bv INTERNAL bh"
        "node_inv b1" "node_inv b2" "bh = max (height b1) (height b2) + 1"
        by (rule node_inv_tall)
      show ?thesis using lh L r B False
        by (simp add: balance_def getNodeWeight_toString)
    qed
  next
    case rh
    then have "2 \<le> height r" using hl by linarith
    with r obtain a b xw xv xh where R: "r = Node (Some a) (Some b) xw xv INTERNAL xh"
      "node_inv a" "node_inv b" "xh = max (height a) (height b) + 1"
      by (rule node_inv_tall)
    show ?thesis
    proof (cases "height a - height b \<le> 0")
      case True
      then show ?thesis using rh R l
        by (simp add: balance_def getNodeWeight_toString)
    next
      case False
      then have "2 \<le> height a" using node_inv_height_pos[OF R(3)] by linarith
      with R(2) obtain a1 a2 aw av ah where A: "a = Node (Some a1) (Some a2) aw av INTERNAL ah"
        "node_inv a1" "node_inv a2" "ah = max (height a1) (height a2) + 1"
        by (rule node_inv_tall)
      show ?thesis using rh R l A False
        by (simp add: balance_def getNodeWeight_toString)
    qed
  next
    case ok
    then show ?thesis using l r
      by (simp add: balance_def getNodeWeight_toString)
  qed
qed

lemma concat_rope_ok:
  assumes "opt_inv l" "opt_inv r"
  shows "\<exists>n. concat_rope l r = Inr n \<and> opt_inv n
     \<and> toString_node n = toString_node l @ toString_node r
     \<and> (n = None \<longrightarrow> l = None \<and> r = None)"
proof (cases l)
  case None
  then show ?thesis using assms by (simp add: concat_rope_def)
next
  case (Some ln)
  note Sl = this
  show ?thesis
  proof (cases r)
    case None
    then show ?thesis using assms Sl by (cases ln) (simp add: concat_rope_def)
  next
    case (Some rn)
    show ?thesis
    proof (cases "type ln = LEAF \<and> type rn = LEAF
                  \<and> int (length (val ln)) + int (length (val rn)) \<le> LEAF_LENGTH_THRESHOLD")
      case True
      then show ?thesis using assms Sl Some
        by (cases ln; cases rn) (simp add: concat_rope_Some)
    next
      case False
      from balance_ok[of ln rn] assms Sl Some
      obtain n where "balance (Node (Some ln) (Some rn) (getNodeWeight (Some ln)) [] INTERNAL
                         (max (height ln) (height rn) + 1)) = Inr n" "node_inv n"
        "toString_node (Some n) = toString_node (Some ln) @ toString_node (Some rn)"
        by (metis opt_inv.simps(2))
      then show ?thesis
        unfolding Sl Some concat_rope_Some if_not_P[OF False] by simp
    qed
  qed
qed


lemma js_substring_valid:
  "0 \<le> a \<Longrightarrow> a \<le> b \<Longrightarrow> b \<le> int (length s) \<Longrightarrow>
     js_substring s a b = take (nat (b - a)) (drop (nat a) s)"
  by (simp add: js_substring_def Let_def min_def max_def)

lemma js_substring_prefix:
  "0 \<le> b \<Longrightarrow> b \<le> int (length s) \<Longrightarrow> js_substring s 0 b = take (nat b) s"
  by (simp add: js_substring_valid)

lemma js_substring_from_valid:
  "0 \<le> a \<Longrightarrow> a \<le> int (length s) \<Longrightarrow> js_substring_from s a = drop (nat a) s"
  by (simp add: js_substring_from_def js_substring_valid)

lemma js_slice_valid:
  "0 \<le> a \<Longrightarrow> a \<le> b \<Longrightarrow> b \<le> int (length s) \<Longrightarrow>
     js_slice s a b = take (nat (b - a)) (drop (nat a) s)"
  by (simp add: js_slice_def Let_def min_def max_def)

lemma split_ok:
  "node_inv n \<Longrightarrow> 0 \<le> i \<Longrightarrow> i \<le> int (length (toString_node (Some n))) \<Longrightarrow>
     \<exists>l r. split n i = Inr (l, r) \<and> opt_inv l \<and> opt_inv r
       \<and> toString_node l = take (nat i) (toString_node (Some n))
       \<and> toString_node r = drop (nat i) (toString_node (Some n))
       \<and> (r = None \<longrightarrow> i = int (length (toString_node (Some n))))"
proof (induction n i rule: split.induct)
  case (1 nl nr w v t h index)
  show ?case
  proof (cases "t = LEAF")
    case True
    with "1.prems" show ?thesis
      by (auto simp: new_RopeNode_def js_substring_prefix js_substring_from_valid)
  next
    case False
    with "1.prems"(1) obtain a b where ab: "nl = Some a" "nr = Some b" "node_inv a" "node_inv b"
      "w = int (length (toString_node (Some a)))"
      by (auto simp: getNodeWeight_toString split: option.splits)
    let ?sa = "toString_node (Some a)" and ?sb = "toString_node (Some b)"
    have whole: "toString_node (Some (Node nl nr w v t h)) = ?sa @ ?sb"
      using False ab by simp
    show ?thesis
    proof (cases "index < w")
      case True
      from "1.IH"(1)[OF False True ab(1) ab(3) "1.prems"(2)] True ab(5)
      obtain l r where lr: "split a index = Inr (l, r)" "opt_inv l" "opt_inv r"
        "toString_node l = take (nat index) ?sa" "toString_node r = drop (nat index) ?sa"
        "r = None \<longrightarrow> index = int (length ?sa)"
        by auto
      from lr(6) True ab(5) obtain rn where rn: "r = Some rn" by (cases r) auto
      from concat_rope_ok[of r nr] lr(3) ab
      obtain rs where rs: "concat_rope r nr = Inr rs" "opt_inv rs"
        "toString_node rs = toString_node r @ ?sb" "rs = None \<longrightarrow> r = None \<and> nr = None"
        by auto
      have sp: "split (Node nl nr w v t h) index = Inr (l, rs)"
        using False True ab(1) lr(1) rn rs(1) by simp
      have le: "nat index \<le> length ?sa" using True ab(5) "1.prems"(2) by linarith
      have tl: "toString_node l = take (nat index) (?sa @ ?sb)"
        using lr(4) le by simp
      have tr: "toString_node rs = drop (nat index) (?sa @ ?sb)"
        using rs(3) lr(5) le by simp
      have "rs \<noteq> None" using rs(4) rn by auto
      with sp tl tr lr(2) rs(2) show ?thesis
        unfolding whole by blast
    next
      case nlt: False
      have idx: "0 \<le> index - w" "index - w \<le> int (length ?sb)"
        using nlt "1.prems"(3) whole ab(5) by auto
      from "1.IH"(2)[OF False nlt ab(2) ab(4) idx]
      obtain l r where lr: "split b (index - w) = Inr (l, r)" "opt_inv l" "opt_inv r"
        "toString_node l = take (nat (index - w)) ?sb" "toString_node r = drop (nat (index - w)) ?sb"
        "r = None \<longrightarrow> index - w = int (length ?sb)"
        by auto
      have natidx: "nat (index - w) = nat index - length ?sa" "length ?sa \<le> nat index"
        using nlt ab(5) by auto
      show ?thesis
      proof (cases l)
        case None
        have sp: "split (Node nl nr w v t h) index = Inr (nl, r)"
          using None False nlt ab(2) lr(1) by simp
        from None lr(4) have e: "take (nat index - length ?sa) ?sb = []"
          using natidx by simp
        have tl: "toString_node nl = take (nat index) (?sa @ ?sb)"
          using e ab(1) natidx(2) by simp
        have tr: "toString_node r = drop (nat index) (?sa @ ?sb)"
          using lr(5) natidx by simp
        have en: "r = None \<longrightarrow> index = int (length (?sa @ ?sb))"
          using lr(6) ab(5) by auto
        have "opt_inv nl" using ab by simp
        with sp tl tr en lr(3) show ?thesis
          unfolding whole by blast
      next
        case (Some ln)
        from concat_rope_ok[of nl l] lr(2) ab
        obtain ls where ls: "concat_rope nl l = Inr ls" "opt_inv ls"
          "toString_node ls = ?sa @ toString_node l"
          by auto
        have sp: "split (Node nl nr w v t h) index = Inr (ls, r)"
          using False nlt ab(2) lr(1) Some ls(1) by simp
        have tl: "toString_node ls = take (nat index) (?sa @ ?sb)"
          using ls(3) lr(4) natidx by simp
        have tr: "toString_node r = drop (nat index) (?sa @ ?sb)"
          using lr(5) natidx by simp
        have en: "r = None \<longrightarrow> index = int (length (?sa @ ?sb))"
          using lr(6) ab(5) by auto
        from sp tl tr en lr(3) ls(2) show ?thesis
          unfolding whole by blast
      qed
    qed
  qed
qed

lemma createOptimalTree_ok:
  "0 \<le> a \<Longrightarrow> a \<le> b \<Longrightarrow> b \<le> int (length s) \<Longrightarrow>
     node_inv (createOptimalTree s a b)
     \<and> toString_node (Some (createOptimalTree s a b)) = take (nat (b - a)) (drop (nat a) s)"
proof (induction s a b rule: createOptimalTree.induct)
  case (1 str start e)
  show ?case
  proof (cases "e - start \<le> LEAF_LENGTH_THRESHOLD")
    case True
    then show ?thesis using "1.prems"
      by (subst (1 2) createOptimalTree.simps) (simp add: new_RopeNode_def js_substring_valid)
  next
    case False
    let ?mid = "(start + e) div 2"
    have m: "start \<le> ?mid" "?mid \<le> e" "0 \<le> ?mid" "?mid \<le> int (length str)"
      using "1.prems" by linarith+
    from "1.IH"(1)[OF False "1.prems"(1) m(1) m(4)]
    have L: "node_inv (createOptimalTree str start ?mid)"
      "toString_node (Some (createOptimalTree str start ?mid))
         = take (nat (?mid - start)) (drop (nat start) str)" by auto
    from "1.IH"(2)[OF False m(3) m(2) "1.prems"(3)]
    have R: "node_inv (createOptimalTree str ?mid e)"
      "toString_node (Some (createOptimalTree str ?mid e))
         = take (nat (e - ?mid)) (drop (nat ?mid) str)" by auto
    have d: "drop (nat ?mid) str = drop (nat (?mid - start)) (drop (nat start) str)"
      using m "1.prems" by (simp add: nat_diff_distrib)
    have n: "nat (e - start) = nat (?mid - start) + nat (e - ?mid)"
      using m by linarith
    have cat: "take (nat (?mid - start)) (drop (nat start) str) @ take (nat (e - ?mid)) (drop (nat ?mid) str)
        = take (nat (e - start)) (drop (nat start) str)"
      unfolding d n by (simp add: take_add)
    show ?thesis
      using False L R cat
      by (subst (1 2) createOptimalTree.simps) (simp add: getNodeWeight_toString)
  qed
qed

lemma build_height_step:
  "build_height n \<le> build_height (Suc n) \<and> build_height (Suc n) \<le> build_height n + 1"
proof (induction n rule: less_induct)
  case (less n)
  consider (small) "n < 1024" | (edge) "n = 1024" | (big) "1024 < n" by linarith
  then show ?case
  proof cases
    case small
    then have "build_height n = 1" "build_height (Suc n) = 1"
      by (subst build_height.simps, simp add: LEAF_LENGTH_THRESHOLD_def)+
    then show ?thesis by simp
  next
    case edge
    have "build_height 1025 = max (build_height 512) (build_height 513) + 1"
      by (subst build_height.simps) (simp add: LEAF_LENGTH_THRESHOLD_def)
    moreover have "build_height 512 = 1" "build_height 513 = 1" "build_height 1024 = 1"
      by (subst build_height.simps, simp add: LEAF_LENGTH_THRESHOLD_def)+
    ultimately show ?thesis using edge by simp
  next
    case big
    let ?k = "n div 2"
    have kn: "?k < n" using big by simp
    have un: "build_height n = max (build_height ?k) (build_height (n - ?k)) + 1"
      using big by (subst build_height.simps) (simp add: LEAF_LENGTH_THRESHOLD_def)
    have us: "build_height (Suc n) = max (build_height (Suc n div 2)) (build_height (Suc n - Suc n div 2)) + 1"
      using big by (subst build_height.simps) (simp add: LEAF_LENGTH_THRESHOLD_def)
    note ih = less.IH[OF kn]
    show ?thesis
    proof (cases "even n")
      case True
      then have "n - ?k = ?k" "Suc n div 2 = ?k" "Suc n - Suc n div 2 = Suc ?k"
        by (auto elim!: evenE)
      with un us ih show ?thesis by simp
    next
      case False
      then have "n - ?k = Suc ?k" "Suc n div 2 = Suc ?k" "Suc n - Suc n div 2 = Suc ?k"
        by (auto elim!: oddE)
      with un us ih show ?thesis by simp
    qed
  qed
qed

lemma build_height_pos: "1 \<le> build_height n"
proof (induction n rule: build_height.induct)
  case (1 n)
  show ?case
  proof (cases "int n \<le> LEAF_LENGTH_THRESHOLD")
    case True
    then show ?thesis by (subst build_height.simps) simp
  next
    case False
    with 1(1) show ?thesis by (subst build_height.simps) (simp add: le_max_iff_disj)
  qed
qed

lemma build_height_halves:
  "\<bar>build_height (n div 2) - build_height (n - n div 2)\<bar> \<le> 1"
proof (cases "even n")
  case True
  then have "n - n div 2 = n div 2" by (auto elim!: evenE)
  then show ?thesis by simp
next
  case False
  then have "n - n div 2 = Suc (n div 2)" by (auto elim!: oddE)
  with build_height_step[of "n div 2"] show ?thesis by simp
qed

lemma checkBalance_createOptimalTree:
  "checkBalance (Some (createOptimalTree s a b)) = build_height (nat (b - a))"
proof (induction s a b rule: createOptimalTree.induct)
  case (1 str start e)
  show ?case
  proof (cases "e - start \<le> LEAF_LENGTH_THRESHOLD")
    case True
    then have "build_height (nat (e - start)) = 1"
      by (subst build_height.simps) (simp add: LEAF_LENGTH_THRESHOLD_def)
    with True show ?thesis
      by (subst createOptimalTree.simps) (simp add: new_RopeNode_def)
  next
    case False
    let ?mid = "(start + e) div 2"
    let ?n = "nat (e - start)"
    have pos: "0 < e - start" using False by (simp add: LEAF_LENGTH_THRESHOLD_def)
    have l: "nat (?mid - start) = ?n div 2" using pos by (simp add: nat_div_distrib)
    have r: "nat (e - ?mid) = ?n - ?n div 2" using pos l by linarith
    have big: "\<not> int ?n \<le> LEAF_LENGTH_THRESHOLD" using False pos by simp
    have bh: "build_height ?n = max (build_height (?n div 2)) (build_height (?n - ?n div 2)) + 1"
      using big by (subst build_height.simps) simp
    have cl: "checkBalance (Some (createOptimalTree str start ?mid)) = build_height (?n div 2)"
      using "1.IH"(1)[OF False] l by simp
    have cr: "checkBalance (Some (createOptimalTree str ?mid e)) = build_height (?n - ?n div 2)"
      using "1.IH"(2)[OF False] r by simp
    have p1: "1 \<le> build_height (?n div 2)" and p2: "1 \<le> build_height (?n - ?n div 2)"
      by (rule build_height_pos)+
    have cot: "createOptimalTree str start e
        = updateNodeMetadata (Node (Some (createOptimalTree str start ?mid))
             (Some (createOptimalTree str ?mid e)) 0 [] INTERNAL 1)"
      using False by (subst createOptimalTree.simps) simp
    show ?thesis
      unfolding cot bh using cl cr p1 p2 build_height_halves[of ?n]
      by (simp add: Let_def)
  qed
qed

lemma charAt_walk_ok:
  "node_inv n \<Longrightarrow> 0 \<le> i \<Longrightarrow> i < int (length (toString_node (Some n))) \<Longrightarrow>
     charAt_walk n i = Inr [toString_node (Some n) ! nat i]"
proof (induction n i rule: charAt_walk.induct)
  case (1 l r w v t h currentIndex)
  show ?case
  proof (cases "t = INTERNAL")
    case False
    then have "t = LEAF" by (cases t) auto
    with "1.prems" show ?thesis by (simp add: js_index_def)
  next
    case True
    with "1.prems"(1) obtain a b where ab: "l = Some a" "r = Some b" "node_inv a" "node_inv b"
      "w = int (length (toString_node (Some a)))"
      by (auto simp: getNodeWeight_toString split: option.splits)
    let ?sa = "toString_node (Some a)" and ?sb = "toString_node (Some b)"
    have whole: "toString_node (Some (Node l r w v t h)) = ?sa @ ?sb"
      using True ab by simp
    show ?thesis
    proof (cases "currentIndex < w")
      case lt: True
      from "1.IH"(1)[OF True lt ab(1) ab(3) "1.prems"(2)] lt ab(5)
      have "charAt_walk a currentIndex = Inr [?sa ! nat currentIndex]" by simp
      moreover have "nat currentIndex < length ?sa" using lt ab(5) "1.prems"(2) by linarith
      ultimately show ?thesis
        unfolding whole using True lt ab(1) by (simp add: nth_append)
    next
      case ge: False
      have idx: "0 \<le> currentIndex - w" "currentIndex - w < int (length ?sb)"
        using ge "1.prems"(3) ab(5) unfolding whole by auto
      from "1.IH"(2)[OF True ge ab(2) ab(4) idx]
      have "charAt_walk b (currentIndex - w) = Inr [?sb ! nat (currentIndex - w)]" .
      moreover have "nat (currentIndex - w) = nat currentIndex - length ?sa"
        "\<not> nat currentIndex < length ?sa"
        using ge ab(5) by auto
      ultimately show ?thesis
        unfolding whole using True ge ab(2) by (simp add: nth_append)
    qed
  qed
qed

lemma charAt_walk_shape:
  "(\<exists>err. charAt_walk n i = Inl err) \<or> (\<exists>c. charAt_walk n i = Inr [c])"
  by (induction n i rule: charAt_walk.induct)
     (auto simp: js_index_def split: option.splits)

section \<open>Rope-level lemmas\<close>

lemma length_rope_toString: "length_rope this = int (length (toString this))"
  by (cases "root this") (simp_all add: length_rope_def toString_def getNodeWeight_toString)

lemma Rope_new_ok: "rope_inv (Rope_new s) \<and> toString (Rope_new s) = s"
  using createOptimalTree_ok[of 0 "int (length s)" s]
  by (simp add: Rope_new_def rope_inv_def toString_def)

lemma rebalance_ok: "rope_inv (rebalance this) \<and> toString (rebalance this) = toString this"
  using createOptimalTree_ok[of 0 "int (length (toString this))" "toString this"]
  by (simp add: rebalance_def rope_inv_def toString_def Let_def)

lemma insert_rope_invalid:
  "index < 0 \<or> index > length_rope this \<Longrightarrow>
     insert_rope this index text = (Inl IndexOutOfBounds, this)"
  by (simp add: insert_rope_def)

lemma insert_rope_ok:
  assumes inv: "rope_inv this" and lo: "0 \<le> index" and hi: "index \<le> length_rope this"
  shows "\<exists>this'. insert_rope this index text = (Inr (), this') \<and> rope_inv this'
     \<and> toString this' = take (nat index) (toString this) @ text @ drop (nat index) (toString this)"
proof (cases "root this")
  case None
  then have "toString this = []" by (simp add: toString_def)
  with None lo hi show ?thesis
    by (simp add: insert_rope_def rope_inv_def toString_def new_RopeNode_def length_rope_def)
next
  case (Some rt)
  let ?s = "toString_node (Some rt)"
  have s: "toString this = ?s" using Some by (simp add: toString_def)
  have rt: "node_inv rt" using inv Some by (simp add: rope_inv_def)
  have hi': "index \<le> int (length ?s)" using hi s by (simp add: length_rope_toString)
  from split_ok[OF rt lo hi']
  obtain l r where lr: "split rt index = Inr (l, r)" "opt_inv l" "opt_inv r"
    "toString_node l = take (nat index) ?s" "toString_node r = drop (nat index) ?s"
    by blast
  have nn: "opt_inv (Some (new_RopeNode text))" "toString_node (Some (new_RopeNode text)) = text"
    by (simp_all add: new_RopeNode_def)
  show ?thesis
  proof (cases l)
    case None
    from concat_rope_ok[OF nn(1) lr(3)]
    obtain n where n: "concat_rope (Some (new_RopeNode text)) r = Inr n" "opt_inv n"
      "toString_node n = toString_node (Some (new_RopeNode text)) @ toString_node r"
      by blast
    have "insert_rope this index text = (Inr (), this\<lparr>root := n\<rparr>)"
      using lo hi Some lr(1) None n(1) by (simp add: insert_rope_def)
    moreover have "take (nat index) ?s = []" using lr(4) None by simp
    ultimately show ?thesis
      using n(2,3) nn(2) lr(5) s by (simp add: rope_inv_def toString_def)
  next
    case (Some ln)
    from concat_rope_ok[OF lr(2) nn(1)]
    obtain temp where temp: "concat_rope l (Some (new_RopeNode text)) = Inr temp" "opt_inv temp"
      "toString_node temp = toString_node l @ toString_node (Some (new_RopeNode text))"
      by blast
    from concat_rope_ok[OF temp(2) lr(3)]
    obtain n where n: "concat_rope temp r = Inr n" "opt_inv n"
      "toString_node n = toString_node temp @ toString_node r"
      by blast
    have "insert_rope this index text = (Inr (), this\<lparr>root := n\<rparr>)"
      using lo hi \<open>root this = Some rt\<close> lr(1) Some temp(1) n(1) by (simp add: insert_rope_def)
    then show ?thesis
      using n(2,3) temp(3) nn(2) lr(4,5) s by (simp add: rope_inv_def toString_def)
  qed
qed

lemma delete_invalid:
  "start \<noteq> e \<Longrightarrow> start < 0 \<or> e > length_rope this \<or> start > e \<Longrightarrow>
     delete this start e = (Inl InvalidRange, this)"
  by (auto simp: delete_def)

lemma delete_ok:
  assumes inv: "rope_inv this" and lo: "0 \<le> start" and lt: "start < e"
    and hi: "e \<le> length_rope this"
  shows "\<exists>this'. delete this start e = (Inr (), this') \<and> rope_inv this'
     \<and> toString this' = take (nat start) (toString this) @ drop (nat e) (toString this)"
proof (cases "root this")
  case None
  then have "length_rope this = 0" by (simp add: length_rope_def)
  with lo lt hi show ?thesis by simp
next
  case (Some rt)
  let ?s = "toString_node (Some rt)"
  have s: "toString this = ?s" using Some by (simp add: toString_def)
  have rt: "node_inv rt" using inv Some by (simp add: rope_inv_def)
  have len: "length_rope this = int (length ?s)" using s by (simp add: length_rope_toString)
  have st: "start \<le> int (length ?s)" using lt hi len by simp
  from split_ok[OF rt lo st]
  obtain l temp where lt1: "split rt start = Inr (l, temp)" "opt_inv l" "opt_inv temp"
    "toString_node l = take (nat start) ?s" "toString_node temp = drop (nat start) ?s"
    "temp = None \<longrightarrow> start = int (length ?s)"
    by blast
  from lt1(6) lt hi len obtain tn where tn: "temp = Some tn" by (cases temp) auto
  have tninv: "node_inv tn" using lt1(3) tn by simp
  have d: "0 \<le> e - start" "e - start \<le> int (length (toString_node (Some tn)))"
    using lo lt hi len lt1(5) tn by auto
  from split_ok[OF tninv d]
  obtain m r where mr: "split tn (e - start) = Inr (m, r)" "opt_inv r"
    "toString_node r = drop (nat (e - start)) (toString_node (Some tn))"
    by blast
  have rs: "toString_node r = drop (nat e) ?s"
    using mr(3) lt1(5) tn lo lt by (simp add: nat_diff_distrib add.commute)
  have guard: "\<not> (start < 0 \<or> e > length_rope this \<or> start \<ge> e)" "start \<noteq> e"
    using lo lt hi by auto
  show ?thesis
  proof (cases l)
    case None
    have "delete this start e = (Inr (), this\<lparr>root := r\<rparr>)"
      using guard Some lt1(1) tn mr(1) None by (simp add: delete_def)
    moreover have "take (nat start) ?s = []" using lt1(4) None by simp
    ultimately show ?thesis
      using mr(2) rs s by (simp add: rope_inv_def toString_def)
  next
    case (Some ln)
    from concat_rope_ok[OF lt1(2) mr(2)]
    obtain n where n: "concat_rope l r = Inr n" "opt_inv n"
      "toString_node n = toString_node l @ toString_node r"
      by blast
    have "delete this start e = (Inr (), this\<lparr>root := n\<rparr>)"
      using guard \<open>root this = Some rt\<close> lt1(1) tn mr(1) Some n(1) by (simp add: delete_def)
    then show ?thesis
      using n(2,3) lt1(4) rs s by (simp add: rope_inv_def toString_def)
  qed
qed

lemma substring_invalid:
  "start < 0 \<or> e > length_rope this \<or> start > e \<Longrightarrow>
     substring this start e = (Inl InvalidRange, this)"
  by (simp add: substring_def)

lemma substring_ok:
  assumes inv: "rope_inv this" and lo: "0 \<le> start" and le: "start \<le> e"
    and hi: "e \<le> length_rope this"
  shows "\<exists>this'. substring this start e
       = (Inr (take (nat (e - start)) (drop (nat start) (toString this))), this')
     \<and> rope_inv this' \<and> toString this' = toString this"
proof -
  have guard: "\<not> (start < 0 \<or> e > length_rope this \<or> start > e)"
    using lo le hi by auto
  consider (empty) "start = e" | (full) "start \<noteq> e" "start = 0 \<and> e = length_rope this"
    | (part) "start \<noteq> e" "\<not> (start = 0 \<and> e = length_rope this)" by blast
  then show ?thesis
  proof cases
    case empty
    then show ?thesis using guard inv by (simp add: substring_def)
  next
    case full
    then show ?thesis using guard inv
      by (simp add: substring_def length_rope_toString)
  next
    case part
    show ?thesis
    proof (cases "root this")
      case None
      then have "length_rope this = 0" by (simp add: length_rope_def)
      with lo le hi part show ?thesis by simp
    next
      case (Some rt)
      let ?s = "toString_node (Some rt)"
      have s: "toString this = ?s" using Some by (simp add: toString_def)
      have rt: "node_inv rt" using inv Some by (simp add: rope_inv_def)
      have len: "length_rope this = int (length ?s)" using s by (simp add: length_rope_toString)
      have st: "start \<le> int (length ?s)" using le hi len by simp
      from split_ok[OF rt lo st]
      obtain l temp where lt1: "split rt start = Inr (l, temp)" "opt_inv l" "opt_inv temp"
        "toString_node l = take (nat start) ?s" "toString_node temp = drop (nat start) ?s"
        "temp = None \<longrightarrow> start = int (length ?s)"
        by blast
      from lt1(6) le hi len part(1) obtain tn where tn: "temp = Some tn" by (cases temp) auto
      have tninv: "node_inv tn" using lt1(3) tn by simp
      have d: "0 \<le> e - start" "e - start \<le> int (length (toString_node (Some tn)))"
        using lo le hi len lt1(5) tn by auto
      from split_ok[OF tninv d]
      obtain m r where mr: "split tn (e - start) = Inr (m, r)" "opt_inv m" "opt_inv r"
        "toString_node m = take (nat (e - start)) (toString_node (Some tn))"
        "toString_node r = drop (nat (e - start)) (toString_node (Some tn))"
        by blast
      have res: "(case m of Some _ \<Rightarrow> toString_node m | None \<Rightarrow> [])
          = take (nat (e - start)) (drop (nat start) ?s)"
        using mr(4) lt1(5) tn by (cases m) auto
      obtain fp where fp: "(case l of Some _ \<Rightarrow> concat_rope l m | None \<Rightarrow> Inr m) = Inr fp"
        "opt_inv fp" "toString_node fp = toString_node l @ toString_node m"
      proof (cases l)
        case None
        then show ?thesis using that mr(2) by simp
      next
        case (Some ln)
        with concat_rope_ok[OF lt1(2) mr(2)] that show ?thesis by auto
      qed
      obtain n where n: "(case r of Some _ \<Rightarrow> concat_rope fp r | None \<Rightarrow> Inr fp) = Inr n"
        "opt_inv n" "toString_node n = toString_node fp @ toString_node r"
      proof (cases r)
        case None
        then show ?thesis using that fp(2) by simp
      next
        case (Some rn)
        with concat_rope_ok[OF fp(2) mr(3)] that show ?thesis by auto
      qed
      have "substring this start e
          = (Inr (take (nat (e - start)) (drop (nat start) ?s)), this\<lparr>root := n\<rparr>)"
        unfolding substring_def if_not_P[OF guard] if_not_P[OF part(1)] if_not_P[OF part(2)]
        using Some lt1(1) tn mr(1) res fp(1) n(1)
        by (simp add: Let_def)
      moreover have "toString_node n = ?s"
        using n(3) fp(3) lt1(4,5) mr(4,5) tn by simp
      ultimately show ?thesis
        using n(2) s by (simp add: rope_inv_def toString_def)
    qed
  qed
qed

section \<open>Every rope a client can hold satisfies the node invariant\<close>

lemma insert_rope_inv: "rope_inv this \<Longrightarrow> rope_inv (snd (insert_rope this index text))"
proof (cases "index < 0 \<or> index > length_rope this")
  case True
  assume "rope_inv this"
  with insert_rope_invalid[OF True] show ?thesis by simp
next
  case False
  assume "rope_inv this"
  with insert_rope_ok[of this index "text"] False show ?thesis by auto
qed

lemma delete_inv: "rope_inv this \<Longrightarrow> rope_inv (snd (delete this start e))"
proof -
  assume inv: "rope_inv this"
  consider (same) "start = e"
    | (bad) "start \<noteq> e" "start < 0 \<or> e > length_rope this \<or> start > e"
    | (good) "0 \<le> start" "start < e" "e \<le> length_rope this" by linarith
  then show ?thesis
  proof cases
    case same
    with inv show ?thesis by (simp add: delete_def)
  next
    case bad
    with delete_invalid[OF bad] inv show ?thesis by simp
  next
    case good
    with delete_ok[OF inv good] show ?thesis by auto
  qed
qed

lemma substring_inv: "rope_inv this \<Longrightarrow> rope_inv (snd (substring this start e))"
proof (cases "start < 0 \<or> e > length_rope this \<or> start > e")
  case True
  assume "rope_inv this"
  with substring_invalid[OF True] show ?thesis by simp
next
  case False
  assume "rope_inv this"
  with substring_ok[of this start e] False show ?thesis by auto
qed

lemma reachable_rope_inv: "reachable this \<Longrightarrow> rope_inv this"
proof (induction rule: reachable.induct)
  case (reach_new s)
  show ?case using Rope_new_ok by simp
next
  case (reach_insert this i t)
  then show ?case by (simp add: insert_rope_inv)
next
  case (reach_delete this start e)
  then show ?case by (simp add: delete_inv)
next
  case (reach_substring this start e)
  then show ?case by (simp add: substring_inv)
next
  case (reach_rebalance this)
  show ?case using rebalance_ok by simp
qed

lemma getNodeWeight_leaf_values:
  "getNodeWeight n = (\<Sum>x\<leftarrow>leaf_values n. int (length x))"
  by (induction n rule: getNodeWeight.induct) auto

lemma node_inv_weights_ok: "node_inv n \<Longrightarrow> weights_ok (Some n)"
proof (induction n rule: node_inv.induct)
  case (1 l r w v t h)
  show ?case
  proof (cases "t = LEAF")
    case True
    then show ?thesis by simp
  next
    case False
    with 1(3) obtain a b where ab: "l = Some a" "r = Some b" "node_inv a" "node_inv b"
      "w = getNodeWeight l"
      by (auto split: option.splits)
    from 1(1)[OF False ab(1) ab(2) ab(3)] 1(2)[OF False ab(1) ab(2) ab(4)] ab False
    show ?thesis by (simp add: getNodeWeight_leaf_values)
  qed
qed

lemma apply_edits_splice:
  "rope_inv this \<Longrightarrow> splice_all (toString this) edits = Some s' \<Longrightarrow>
     \<exists>this'. apply_edits this edits = Inr this' \<and> toString this' = s'"
proof (induction edits arbitrary: this)
  case Nil
  then show ?case by simp
next
  case (Cons x xs)
  from Cons.prems(2) obtain s1 where s1: "splice (toString this) x = Some s1"
    "splice_all s1 xs = Some s'"
    by (auto split: option.splits)
  have "\<exists>this1. apply_edit this x = (Inr (), this1) \<and> rope_inv this1 \<and> toString this1 = s1"
  proof (cases x)
    case (Insert index t)
    with s1(1) have v: "0 \<le> index" "index \<le> length_rope this"
      "s1 = take (nat index) (toString this) @ t @ drop (nat index) (toString this)"
      by (auto simp: length_rope_toString split: if_splits)
    from insert_rope_ok[OF Cons.prems(1) v(1,2), of t] v(3) Insert show ?thesis by auto
  next
    case (Delete start e)
    with s1(1) have v: "0 \<le> start" "start \<le> e" "e \<le> length_rope this"
      "s1 = take (nat start) (toString this) @ drop (nat e) (toString this)"
      by (auto simp: length_rope_toString split: if_splits)
    show ?thesis
    proof (cases "start = e")
      case True
      with v(4) Delete Cons.prems(1) show ?thesis by (simp add: delete_def)
    next
      case False
      with v(2) have "start < e" by simp
      from delete_ok[OF Cons.prems(1) v(1) this v(3)] v(4) Delete show ?thesis by auto
    qed
  qed
  then obtain this1 where t1: "apply_edit this x = (Inr (), this1)" "rope_inv this1"
    "toString this1 = s1" by blast
  from Cons.IH[OF t1(2)] s1(2) t1(3)
  obtain this' where "apply_edits this1 xs = Inr this'" "toString this' = s'" by auto
  with t1(1) show ?case by simp
qed

lemma js_substring_replicate:
  "0 \<le> a \<Longrightarrow> a \<le> b \<Longrightarrow> b \<le> int n \<Longrightarrow>
     js_substring (replicate n c) a b = replicate (nat (b - a)) c"
  by (simp add: js_substring_valid)

lemma js_substring_from_replicate:
  "0 \<le> a \<Longrightarrow> a \<le> int n \<Longrightarrow>
     js_substring_from (replicate n c) a = replicate (n - nat a) c"
  by (simp add: js_substring_from_valid)

lemmas rope_eval =
  Rope_new_def createOptimalTree.simps LEAF_LENGTH_THRESHOLD_def js_substring_replicate
  js_substring_from_replicate
  new_RopeNode_def insert_rope_def delete_def substring_def length_rope_def concat_rope_def
  balance_def isBalanced_def toString_def Let_def

section \<open>The claims\<close>

text \<open>
  C1. For every sequence of \<open>insert\<close> and \<open>delete\<close> calls with valid arguments, applied to a
  rope built from any initial string, no call throws and \<open>toString()\<close> of the final rope is
  the reference string spliced the same way.
\<close>

theorem C1_round_trip:
  "splice_all s edits = Some s' \<Longrightarrow>
     \<exists>this'. apply_edits (Rope_new s) edits = Inr this' \<and> toString this' = s'"
  using apply_edits_splice[of "Rope_new s" edits s'] Rope_new_ok[of s] by simp

theorem C1_round_trip_witness:
  "splice_all ''Hello, world!'' [Insert 5 '' beautiful'', Delete 5 11] = Some ''Helloiful, world!''
   \<and> (\<exists>this'. apply_edits (Rope_new ''Hello, world!'') [Insert 5 '' beautiful'', Delete 5 11]
                 = Inr this'
        \<and> toString this' = ''Helloiful, world!'')"
proof -
  have h: "splice_all ''Hello, world!'' [Insert 5 '' beautiful'', Delete 5 11]
            = Some ''Helloiful, world!''"
    by simp
  from C1_round_trip[OF h] h show ?thesis by blast
qed

text \<open>
  C2. The claim: after \<open>insert\<close>, \<open>delete\<close>, \<open>substring\<close> or \<open>rebalance\<close>, every internal node has
  balance factor in \<open>{-1, 0, 1}\<close>. The code does not achieve it: \<open>concat\<close> balances the one
  node it creates with at most a double rotation, which cannot absorb a height difference
  of three. Prepending one character to a rope built from 4098 characters (children of
  height 3 under a root of height 4) succeeds and leaves a tree that the rope's own
  \<open>isBalanced()\<close> rejects, the root's left child having balance factor \<open>-2\<close>; a \<open>delete\<close> and
  a \<open>substring\<close> on the same rope end unbalanced too.
\<close>

theorem C2_unbalanced_after_mutation:
  "fst (insert_rope (Rope_new (replicate 4098 CHR ''a'')) 0 ''x'') = Inr ()
   \<and> \<not> isBalanced (snd (insert_rope (Rope_new (replicate 4098 CHR ''a'')) 0 ''x''))
   \<and> (case root (snd (insert_rope (Rope_new (replicate 4098 CHR ''a'')) 0 ''x'')) of
        None \<Rightarrow> 0
      | Some n \<Rightarrow> getBalanceFactor (left n)) = - 2
   \<and> fst (delete (Rope_new (replicate 4098 CHR ''a'')) 1 2) = Inr ()
   \<and> \<not> isBalanced (snd (delete (Rope_new (replicate 4098 CHR ''a'')) 1 2))
   \<and> fst (substring (Rope_new (replicate 4098 CHR ''a'')) 0 1) = Inr ''a''
   \<and> \<not> isBalanced (snd (substring (Rope_new (replicate 4098 CHR ''a'')) 0 1))"
  by (simp add: rope_eval)

text \<open>
  C3. For every rope and all \<open>(s, e)\<close> with \<open>0 \<le> s \<le> e \<le> length()\<close>, \<open>substring(s, e)\<close>
  returns \<open>toString().slice(s, e)\<close>, and \<open>toString()\<close> is the same after the call as before.
\<close>

theorem C3_substring_slice:
  "reachable this \<Longrightarrow> 0 \<le> s \<Longrightarrow> s \<le> e \<Longrightarrow> e \<le> length_rope this \<Longrightarrow>
     fst (substring this s e) = Inr (js_slice (toString this) s e)
     \<and> toString (snd (substring this s e)) = toString this"
proof -
  assume r: "reachable this" and b: "0 \<le> s" "s \<le> e" "e \<le> length_rope this"
  from substring_ok[OF reachable_rope_inv[OF r] b]
  obtain this' where "substring this s e
       = (Inr (take (nat (e - s)) (drop (nat s) (toString this))), this')"
    "toString this' = toString this" by blast
  moreover have "js_slice (toString this) s e = take (nat (e - s)) (drop (nat s) (toString this))"
    using b by (simp add: js_slice_valid length_rope_toString)
  ultimately show ?thesis by simp
qed

theorem C3_substring_slice_witness:
  "reachable (Rope_new ''Hello, world!'')
   \<and> (0::int) \<le> 7 \<and> (7::int) \<le> 12 \<and> 12 \<le> length_rope (Rope_new ''Hello, world!'')
   \<and> fst (substring (Rope_new ''Hello, world!'') 7 12) = Inr ''world''
   \<and> toString (snd (substring (Rope_new ''Hello, world!'') 7 12)) = ''Hello, world!''"
proof -
  have r: "reachable (Rope_new ''Hello, world!'')" by (rule reach_new)
  have l: "12 \<le> length_rope (Rope_new ''Hello, world!'')"
    by (simp add: rope_eval js_substring_def)
  have t: "toString (Rope_new ''Hello, world!'') = ''Hello, world!''"
    by (simp add: rope_eval js_substring_def)
  from C3_substring_slice[OF r _ _ l, of 7] r l t show ?thesis
    by (simp add: js_slice_def)
qed

text \<open>
  C4. For every rope and every integer \<open>k\<close>, in range or not, \<open>delete(k, k)\<close> returns without
  throwing and leaves the rope as it was.
\<close>

theorem C4_delete_equal_bounds: "delete this k k = (Inr (), this)"
  by (simp add: delete_def)

text \<open>
  C5. \<open>insert(index, text)\<close> throws "Index out of bounds" exactly when \<open>index < 0\<close> or
  \<open>index > length()\<close>; \<open>delete(start, end)\<close> with \<open>start \<noteq> end\<close> throws "Invalid range" exactly
  when \<open>start < 0\<close> or \<open>end > length()\<close> or \<open>start > end\<close>; a call that throws leaves the rope
  as it was, and a call that does not throw these throws nothing else either.
\<close>

theorem C5_validation_errors:
  "reachable this \<Longrightarrow>
     (if index < 0 \<or> index > length_rope this
      then insert_rope this index text = (Inl IndexOutOfBounds, this)
      else fst (insert_rope this index text) = Inr ())
     \<and> (start \<noteq> e \<longrightarrow>
          (if start < 0 \<or> e > length_rope this \<or> start > e
           then delete this start e = (Inl InvalidRange, this)
           else fst (delete this start e) = Inr ()))"
proof -
  assume r: "reachable this"
  note inv = reachable_rope_inv[OF r]
  have i: "if index < 0 \<or> index > length_rope this
      then insert_rope this index text = (Inl IndexOutOfBounds, this)
      else fst (insert_rope this index text) = Inr ()"
  proof (cases "index < 0 \<or> index > length_rope this")
    case True
    with insert_rope_invalid[OF True] show ?thesis by simp
  next
    case False
    with insert_rope_ok[OF inv, of index "text"] show ?thesis by auto
  qed
  have d: "start \<noteq> e \<longrightarrow>
          (if start < 0 \<or> e > length_rope this \<or> start > e
           then delete this start e = (Inl InvalidRange, this)
           else fst (delete this start e) = Inr ())"
  proof (cases "start < 0 \<or> e > length_rope this \<or> start > e")
    case True
    with delete_invalid[of start e this] show ?thesis by simp
  next
    case False
    show ?thesis
    proof
      assume "start \<noteq> e"
      with False have "0 \<le> start" "start < e" "e \<le> length_rope this" by auto
      from delete_ok[OF inv this] False show "if start < 0 \<or> e > length_rope this \<or> start > e
           then delete this start e = (Inl InvalidRange, this)
           else fst (delete this start e) = Inr ()" by auto
    qed
  qed
  from i d show ?thesis by blast
qed

theorem C5_validation_errors_witness:
  "reachable (Rope_new ''abc'')
   \<and> insert_rope (Rope_new ''abc'') 4 ''x'' = (Inl IndexOutOfBounds, Rope_new ''abc'')
   \<and> (2::int) \<noteq> 1
   \<and> delete (Rope_new ''abc'') 2 1 = (Inl InvalidRange, Rope_new ''abc'')"
proof -
  have r: "reachable (Rope_new ''abc'')" by (rule reach_new)
  have l: "length_rope (Rope_new ''abc'') = 3"
    by (simp add: rope_eval js_substring_def)
  from C5_validation_errors[OF r, of 4 "''x''" 2 1] r l show ?thesis by simp
qed

text \<open>
  C6. For every rope and every index \<open>i\<close> with \<open>0 \<le> i < length()\<close>, \<open>charAt(i)\<close> returns the
  one-character string \<open>toString()[i]\<close>.
\<close>

theorem C6_charAt_toString:
  "reachable this \<Longrightarrow> 0 \<le> i \<Longrightarrow> i < length_rope this \<Longrightarrow>
     charAt this i = Inr [toString this ! nat i]
     \<and> js_index (toString this) i = Some [toString this ! nat i]"
proof -
  assume r: "reachable this" and b: "0 \<le> i" "i < length_rope this"
  note inv = reachable_rope_inv[OF r]
  show ?thesis
  proof (cases "root this")
    case None
    with b show ?thesis by (simp add: length_rope_def)
  next
    case (Some rt)
    then have "node_inv rt" "toString this = toString_node (Some rt)"
      "length_rope this = int (length (toString_node (Some rt)))"
      using inv by (simp_all add: rope_inv_def toString_def length_rope_toString)
    with charAt_walk_ok[of rt i] b Some show ?thesis
      by (simp add: charAt_def js_index_def)
  qed
qed

theorem C6_charAt_toString_witness:
  "reachable (Rope_new ''Hello, world!'') \<and> (0::int) \<le> 7
   \<and> 7 < length_rope (Rope_new ''Hello, world!'')
   \<and> charAt (Rope_new ''Hello, world!'') 7 = Inr ''w''"
proof -
  have r: "reachable (Rope_new ''Hello, world!'')" by (rule reach_new)
  have l: "7 < length_rope (Rope_new ''Hello, world!'')"
    by (simp add: rope_eval js_substring_def)
  have t: "toString (Rope_new ''Hello, world!'') = ''Hello, world!''"
    by (simp add: rope_eval js_substring_def)
  from C6_charAt_toString[OF r _ l] r l t show ?thesis by simp
qed

text \<open>
  C7. After every public operation, every internal node reachable from the root has its
  cached weight equal to the sum of the lengths of the leaf values of its left subtree.
\<close>

theorem C7_weights: "reachable this \<Longrightarrow> weights_ok (root this)"
proof -
  assume "reachable this"
  then have "rope_inv this" by (rule reachable_rope_inv)
  then show ?thesis
    by (cases "root this") (simp_all add: rope_inv_def node_inv_weights_ok)
qed

theorem C7_weights_witness:
  "reachable (snd (insert_rope (Rope_new (replicate 4098 CHR ''a'')) 0 ''x''))
   \<and> weights_ok (root (snd (insert_rope (Rope_new (replicate 4098 CHR ''a'')) 0 ''x'')))"
proof -
  have r: "reachable (snd (insert_rope (Rope_new (replicate 4098 CHR ''a'')) 0 ''x''))"
    by (rule reach_insert) (rule reach_new)
  from C7_weights[OF r] r show ?thesis by simp
qed

text \<open>
  C8. For every rope, after \<open>rebalance()\<close> the rope's \<open>isBalanced()\<close> is true and \<open>toString()\<close>
  is what it was before the call.
\<close>

theorem C8_rebalance:
  "isBalanced (rebalance this) \<and> toString (rebalance this) = toString this"
proof -
  have "checkBalance (root (rebalance this)) = build_height (length (toString this))"
    using checkBalance_createOptimalTree[of "toString this" 0 "int (length (toString this))"]
    by (simp add: rebalance_def Let_def)
  with build_height_pos[of "length (toString this)"] have "isBalanced (rebalance this)"
    by (simp add: isBalanced_def)
  with rebalance_ok show ?thesis by simp
qed

text \<open>
  C9. For every rope, the empty one included, and every \<open>i\<close> with \<open>0 \<le> i \<le> length()\<close>,
  \<open>insert(i, "")\<close> does not throw and leaves \<open>toString()\<close> and \<open>length()\<close> as they were.
\<close>

theorem C9_insert_empty:
  "reachable this \<Longrightarrow> 0 \<le> i \<Longrightarrow> i \<le> length_rope this \<Longrightarrow>
     fst (insert_rope this i []) = Inr ()
     \<and> toString (snd (insert_rope this i [])) = toString this
     \<and> length_rope (snd (insert_rope this i [])) = length_rope this"
proof -
  assume r: "reachable this" and b: "0 \<le> i" "i \<le> length_rope this"
  from insert_rope_ok[OF reachable_rope_inv[OF r] b, of "[]"]
  show ?thesis by (auto simp: length_rope_toString)
qed

theorem C9_insert_empty_witness:
  "reachable (Rope_new []) \<and> (0::int) \<le> 0 \<and> 0 \<le> length_rope (Rope_new [])
   \<and> fst (insert_rope (Rope_new []) 0 []) = Inr ()
   \<and> toString (snd (insert_rope (Rope_new []) 0 [])) = toString (Rope_new [])
   \<and> length_rope (snd (insert_rope (Rope_new []) 0 [])) = length_rope (Rope_new [])"
proof -
  have r: "reachable (Rope_new [])" by (rule reach_new)
  have l: "0 \<le> length_rope (Rope_new [])" by (simp add: rope_eval)
  from C9_insert_empty[OF r _ l] r l show ?thesis by simp
qed

text \<open>
  C10. For every rope and every integer index, \<open>charAt(index)\<close> either throws or returns a
  string of length exactly 1: where the leaf has no character at the remaining offset the
  access yields \<open>undefined\<close> and the guard throws "Index out of bounds".
\<close>

theorem C10_charAt_total:
  "(\<exists>err. charAt this index = Inl err)
   \<or> (\<exists>s. charAt this index = Inr s \<and> length s = 1)"
proof (cases "root this")
  case None
  then show ?thesis by (simp add: charAt_def)
next
  case (Some rt)
  with charAt_walk_shape[of rt index] show ?thesis
    by (auto simp: charAt_def)
qed

end
